theory Spec2Isabelle
  imports Main "HOL-Library.Log_Nat"
begin

section \<open>The partitioner: \<open>split\<close> of utils/utils.py\<close>

text \<open>
  Python integers are unbounded, so they are \<open>int\<close> here; \<open>x // n\<close> and \<open>x % n\<close>
  are floor division and its remainder, which is what \<open>div\<close> and \<open>mod\<close> are on
  \<open>int\<close>.  Exceptions are values: a function that can raise returns
  \<open>error + 'a\<close>, with \<open>Inl\<close> for the exception.
\<close>

datatype error = ValueError | ZeroDivisionError | IndexError | OverflowError

text \<open>
  One pass of the body of the \<open>while\<close> loop of \<open>split\<close>: the two inner \<open>for\<close>
  loops append to \<open>out\<close>.  \<open>range k\<close> is empty for \<open>k \<le> 0\<close>, as \<open>nat k\<close> is \<open>0\<close>.
\<close>

definition split_block :: "int \<Rightarrow> int \<Rightarrow> int \<Rightarrow> int list" where
  "split_block pp hi lo =
     (if hi > lo
      then concat (replicate (nat lo) [pp, pp + 1]) @ replicate (nat (hi - lo)) (pp + 1)
      else concat (replicate (nat hi) [pp, pp + 1]) @ replicate (nat (lo - hi)) pp)"

text \<open>
  The loop \<open>while i < n: ...; i += lo + hi\<close>.  Nothing in the loop itself makes
  \<open>lo + hi\<close> positive, so the loop is a partial function: \<open>None\<close> is a loop that
  never ends.
\<close>

partial_function (option) split_loop ::
  "int \<Rightarrow> int \<Rightarrow> int \<Rightarrow> int \<Rightarrow> int \<Rightarrow> int list \<Rightarrow> int list option" where
  "split_loop pp hi lo n i out =
     (if i < n then split_loop pp hi lo n (i + (lo + hi)) (out @ split_block pp hi lo)
      else Some out)"

declare split_loop.simps [code]

text \<open>
  \<open>int(a / b)\<close> on two Python integers.  \<open>a / b\<close> is the quotient as a double:
  ZeroDivisionError for \<open>b = 0\<close>, otherwise the exact quotient rounded to 53
  significant bits, a tie going to the even neighbour, and OverflowError when
  the rounded value reaches \<open>2^1024\<close>.  \<open>int\<close> then drops the fraction, towards
  zero.  With \<open>2^e \<le> |a| / |b| < 2^(e + 1)\<close> the double is \<open>m * 2^(e - 52)\<close> for
  the integer \<open>m\<close> nearest to \<open>|a| / |b| / 2^(e - 52)\<close>; \<open>bitlen\<close> is the number of
  bits of an integer, which gives \<open>e\<close> up to one.
\<close>

definition round_half_even :: "int \<Rightarrow> int \<Rightarrow> int" where
  "round_half_even num den =
     (let q = num div den; r = num mod den
      in if 2 * r < den then q
         else if 2 * r > den then q + 1
         else if even q then q else q + 1)"

definition int_of_truediv :: "int \<Rightarrow> int \<Rightarrow> error + int" where
  "int_of_truediv a b =
     (if b = 0 then Inl ZeroDivisionError
      else if a = 0 then Inr 0
      else
        (let d = bitlen \<bar>a\<bar> - bitlen \<bar>b\<bar>;
             e = (if (if 0 \<le> d then \<bar>b\<bar> * 2 ^ nat d \<le> \<bar>a\<bar>
                      else \<bar>b\<bar> \<le> \<bar>a\<bar> * 2 ^ nat (- d))
                  then d else d - 1);
             sh = e - 52;
             m = (if 0 \<le> sh then round_half_even \<bar>a\<bar> (\<bar>b\<bar> * 2 ^ nat sh)
                  else round_half_even (\<bar>a\<bar> * 2 ^ nat (- sh)) \<bar>b\<bar>)
         in if 0 \<le> sh \<and> 2 ^ 1024 \<le> m * 2 ^ nat sh then Inl OverflowError
            else Inr (sgn a * sgn b *
                      (if 0 \<le> sh then m * 2 ^ nat sh else m div 2 ^ nat (- sh)))))"

text \<open>
  \<open>split x n\<close>.  The test \<open>x % n == 0\<close> raises ZeroDivisionError for \<open>n = 0\<close>.
  \<open>math.gcd\<close> is the non-negative greatest common divisor, as \<open>gcd\<close> on \<open>int\<close>.
  \<open>hi\<close> and \<open>lo\<close> are computed by \<open>int(high / cd)\<close> and \<open>int(zp / cd)\<close>, in this
  order, and an exception of either is the result.
  The result is \<open>None\<close> when the loop does not end, \<open>Some (Inl e)\<close> when \<open>e\<close> is
  raised and \<open>Some (Inr out)\<close> when \<open>out\<close> is returned.
\<close>

definition split :: "int \<Rightarrow> int \<Rightarrow> (error + int list) option" where
  "split x n =
     (if x < n then Some (Inl ValueError)
      else if n = 0 then Some (Inl ZeroDivisionError)
      else if x mod n = 0 then Some (Inr (replicate (nat n) (x div n)))
      else
        (let zp = n - (x mod n);
             pp = x div n;
             high = n - zp;
             cd = (if high > zp then gcd high zp else gcd zp high)
         in case int_of_truediv high cd of
              Inl e \<Rightarrow> Some (Inl e)
            | Inr hi \<Rightarrow>
                (case int_of_truediv zp cd of
                   Inl e \<Rightarrow> Some (Inl e)
                 | Inr lo \<Rightarrow> map_option Inr (split_loop pp hi lo n 0 []))))"


section \<open>The renderer: utils/generator.py\<close>

subsection \<open>Books and indexing\<close>

text \<open>
  An element of \<open>meta\<close> is the dictionary that \<open>request_metadata\<close> builds, with
  exactly the keys \<open>"name"\<close>, \<open>"chapters"\<close> and \<open>"verses"\<close>.
\<close>

record book =
  name :: string
  chapters :: int
  verses :: int

text \<open>
  \<open>meta[b]\<close>: Python list indexing.  An index from \<open>-len\<close> up to \<open>-1\<close> counts from
  the end, and an index outside \<open>-len .. len - 1\<close> raises IndexError.
\<close>

definition meta_at :: "book list \<Rightarrow> int \<Rightarrow> error + book" where
  "meta_at meta b =
     (if 0 \<le> b \<and> b < int (length meta) then Inr (meta ! nat b)
      else if - int (length meta) \<le> b \<and> b < 0 then Inr (meta ! nat (int (length meta) + b))
      else Inl IndexError)"

subsection \<open>Formatting an integer in an f-string\<close>

definition digit_char :: "nat \<Rightarrow> char" where
  "digit_char d = ''0123456789'' ! d"

fun str_nat :: "nat \<Rightarrow> string" where
  "str_nat k = (if k < 10 then [digit_char k] else str_nat (k div 10) @ [digit_char (k mod 10)])"

declare str_nat.simps [simp del]

definition str_int :: "int \<Rightarrow> string" where
  "str_int k = (if k < 0 then CHR ''-'' # str_nat (nat (- k)) else str_nat (nat k))"

subsection \<open>\<open>get_day_reading_text\<close>\<close>

text \<open>
  The text of one day, for example \<open>Genesis 48-50; Exodus 1-2\<close>.  The \<open>elif\<close> of
  the source is the complement of its \<open>if\<close>, so it is the \<open>else\<close> here.  An
  IndexError of \<open>meta[b]\<close>, in this call or in a recursive one, is the result.
\<close>

function get_day_reading_text :: "book list \<Rightarrow> int \<Rightarrow> int \<Rightarrow> int \<Rightarrow> error + string" where
  "get_day_reading_text meta b curr_chapter day =
     (case meta_at meta b of
        Inl e \<Rightarrow> Inl e
      | Inr curr_book \<Rightarrow>
          if curr_chapter + day - 1 \<le> chapters curr_book then
            Inr (name curr_book @ '' '' @
                 (if day \<noteq> 1 then str_int curr_chapter @ ''-'' @ str_int (curr_chapter + day - 1)
                  else str_int curr_chapter))
          else
            (case get_day_reading_text meta (b + 1) 1
                    (day - (chapters curr_book - curr_chapter) - 1) of
               Inl e \<Rightarrow> Inl e
             | Inr tail_text \<Rightarrow>
                 Inr (name curr_book @ '' '' @
                      (if curr_chapter \<noteq> chapters curr_book
                       then str_int curr_chapter @ ''-'' @ str_int (chapters curr_book) @ ''; ''
                       else str_int curr_chapter @ ''; '') @
                      tail_text)))"
  by pat_completeness auto
termination
  by (relation "measure (\<lambda>(meta, b, curr_chapter, day). nat (int (length meta) - b))")
     (auto simp: meta_at_def split: if_splits)

declare get_day_reading_text.simps [simp del]

text \<open>
  The arguments \<open>(b, curr_chapter, day)\<close> of the successive calls that one call of
  \<open>get_day_reading_text\<close> makes, itself first: the same tests and the same
  recursive call, with the text left out.  The recursion depth of a call is the
  length of this list minus one.
\<close>

function describe_calls :: "book list \<Rightarrow> int \<Rightarrow> int \<Rightarrow> int \<Rightarrow> (int \<times> int \<times> int) list" where
  "describe_calls meta b curr_chapter day =
     (case meta_at meta b of
        Inl e \<Rightarrow> [(b, curr_chapter, day)]
      | Inr curr_book \<Rightarrow>
          if curr_chapter + day - 1 \<le> chapters curr_book then [(b, curr_chapter, day)]
          else (b, curr_chapter, day) #
               describe_calls meta (b + 1) 1 (day - (chapters curr_book - curr_chapter) - 1))"
  by pat_completeness auto
termination
  by (relation "measure (\<lambda>(meta, b, curr_chapter, day). nat (int (length meta) - b))")
     (auto simp: meta_at_def split: if_splits)

declare describe_calls.simps [simp del]

subsection \<open>\<open>generate_plan\<close>\<close>

text \<open>
  The local variables of the loop of \<open>generate_plan\<close>.  A date is the number of
  its day: \<open>curr_day += datetime.timedelta(days=1)\<close> adds one.
\<close>

record loop_state =
  s_b :: int
  s_curr_day :: int
  s_curr_book :: book
  s_curr_chapter :: int

text \<open>
  The inner loop \<open>while curr_chapter > curr_book["chapters"]\<close>, on the variables
  \<open>b\<close>, \<open>curr_chapter\<close> and \<open>curr_book\<close>.
\<close>

function advance_book :: "book list \<Rightarrow> int \<Rightarrow> int \<Rightarrow> book \<Rightarrow> error + (int \<times> int \<times> book)" where
  "advance_book meta b curr_chapter curr_book =
     (if curr_chapter > chapters curr_book then
        (case meta_at meta (b + 1) of
           Inl e \<Rightarrow> Inl e
         | Inr next_book \<Rightarrow>
             advance_book meta (b + 1) (curr_chapter - chapters curr_book) next_book)
      else Inr (b, curr_chapter, curr_book))"
  by pat_completeness auto
termination
  by (relation "measure (\<lambda>(meta, b, curr_chapter, curr_book). nat (int (length meta) - b))")
     (auto simp: meta_at_def split: if_splits)

declare advance_book.simps [simp del]

text \<open>
  The loop \<open>for i, day in enumerate(chapters_per_day)\<close>: \<open>len\<close> is
  \<open>len(chapters_per_day)\<close>, \<open>i\<close> the index of the day at the head of the list.
  The result is the rows given to the CSV writer, a date and a text each, and
  the variables when the loop ends.
\<close>

fun plan_loop ::
  "book list \<Rightarrow> int \<Rightarrow> int \<Rightarrow> loop_state \<Rightarrow> int list \<Rightarrow>
   error + ((int \<times> string) list \<times> loop_state)" where
  "plan_loop meta len i s [] = Inr ([], s)"
| "plan_loop meta len i s (day # rest) =
     (case get_day_reading_text meta (s_b s) (s_curr_chapter s) day of
        Inl e \<Rightarrow> Inl e
      | Inr day_readings \<Rightarrow>
          (case (if i \<noteq> len - 1 then
                   (case advance_book meta (s_b s) (s_curr_chapter s + day) (s_curr_book s) of
                      Inl e \<Rightarrow> Inl e
                    | Inr (b', curr_chapter', curr_book') \<Rightarrow>
                        Inr \<lparr>s_b = b', s_curr_day = s_curr_day s + 1,
                             s_curr_book = curr_book', s_curr_chapter = curr_chapter'\<rparr>)
                 else Inr s) of
             Inl e \<Rightarrow> Inl e
           | Inr s' \<Rightarrow>
               (case plan_loop meta len (i + 1) s' rest of
                  Inl e \<Rightarrow> Inl e
                | Inr (rows, final) \<Rightarrow> Inr ((s_curr_day s, day_readings) # rows, final))))"

text \<open>
  Lines 182 to 196: the variables are set up (\<open>curr_book = meta[b]\<close> raises on an
  empty \<open>meta\<close>) and the loop runs over the quotas.  \<open>write_plan_upto\<close> stops
  the same loop after the first \<open>k\<close> days, which gives the variables at the
  start of day \<open>k + 1\<close>.
\<close>

definition write_plan_upto ::
  "book list \<Rightarrow> int list \<Rightarrow> int \<Rightarrow> nat \<Rightarrow> error + ((int \<times> string) list \<times> loop_state)" where
  "write_plan_upto meta chapters_per_day start k =
     (case meta_at meta 0 of
        Inl e \<Rightarrow> Inl e
      | Inr curr_book \<Rightarrow>
          plan_loop meta (int (length chapters_per_day)) 0
            \<lparr>s_b = 0, s_curr_day = start, s_curr_book = curr_book, s_curr_chapter = 1\<rparr>
            (take k chapters_per_day))"

definition write_plan ::
  "book list \<Rightarrow> int list \<Rightarrow> int \<Rightarrow> error + ((int \<times> string) list \<times> loop_state)" where
  "write_plan meta chapters_per_day start =
     write_plan_upto meta chapters_per_day start (length chapters_per_day)"

text \<open>
  Lines 165 to 170: the quotas, with the fallback on ValueError.  Any other
  exception of \<open>split\<close> is not caught.
\<close>

definition plan_quotas :: "int \<Rightarrow> int \<Rightarrow> (error + int list) option" where
  "plan_quotas nchapters duration =
     (case split nchapters duration of
        None \<Rightarrow> None
      | Some (Inl ValueError) \<Rightarrow> Some (Inr (replicate (nat nchapters) 1))
      | Some (Inl e) \<Rightarrow> Some (Inl e)
      | Some (Inr out) \<Rightarrow> Some (Inr out))"

text \<open>
  \<open>generate_plan\<close>.  The parameter \<open>chapters\<close> of the source is \<open>nchapters\<close>
  here.  The flag \<open>write\<close> chooses where the rows go, the file
  \<open>reading_plan.csv\<close> or a string that is returned; the rows are the same.
  The CSV encoding of the rows and the format of the dates are not modelled.
\<close>

record plan =
  plan_rows :: "(int \<times> string) list"
  plan_to_file :: bool

definition generate_plan ::
  "book list \<Rightarrow> int \<Rightarrow> int \<Rightarrow> int \<Rightarrow> bool \<Rightarrow> (error + plan) option" where
  "generate_plan meta duration start nchapters write =
     (case plan_quotas nchapters duration of
        None \<Rightarrow> None
      | Some (Inl e) \<Rightarrow> Some (Inl e)
      | Some (Inr chapters_per_day) \<Rightarrow>
          (case write_plan meta chapters_per_day start of
             Inl e \<Rightarrow> Some (Inl e)
           | Inr (rows, final) \<Rightarrow> Some (Inr \<lparr>plan_rows = rows, plan_to_file = write\<rparr>)))"

subsection \<open>Units consumed and containers spanned\<close>

text \<open>
  The units in the books before book \<open>b\<close>, the units that a cursor has behind
  it, and the units of all books.
\<close>

definition units_before :: "book list \<Rightarrow> int \<Rightarrow> int" where
  "units_before meta b = sum_list (map chapters (take (nat b) meta))"

definition consumed :: "book list \<Rightarrow> loop_state \<Rightarrow> int" where
  "consumed meta s = units_before meta (s_b s) + s_curr_chapter s - 1"

definition capacity :: "book list \<Rightarrow> int" where
  "capacity meta = sum_list (map chapters meta)"

text \<open>
  Counting the units of all books from 1, a book that follows \<open>pre\<close> units and
  has \<open>c\<close> chapters holds the units \<open>pre + 1 .. pre + c\<close>.  \<open>spanned\<close> counts the
  books that hold a unit of \<open>u .. v\<close>, and \<open>day_span\<close> the books that a
  day of \<open>day\<close> units starting at chapter \<open>curr_chapter\<close> of book \<open>b\<close> reads from.
\<close>

fun spanned :: "int \<Rightarrow> int \<Rightarrow> int \<Rightarrow> int list \<Rightarrow> nat" where
  "spanned u v pre [] = 0"
| "spanned u v pre (c # cs) =
     (if pre < v \<and> u \<le> pre + c then 1 else 0) + spanned u v (pre + c) cs"

definition day_span :: "book list \<Rightarrow> int \<Rightarrow> int \<Rightarrow> int \<Rightarrow> nat" where
  "day_span meta b curr_chapter day =
     spanned (units_before meta b + curr_chapter)
             (units_before meta b + curr_chapter + day - 1) 0 (map chapters meta)"

text \<open>The two books of the example of the specification.\<close>

definition alpha_beta :: "book list" where
  "alpha_beta = [\<lparr>name = ''Alpha'', chapters = 5, verses = 0\<rparr>,
                 \<lparr>name = ''Beta'', chapters = 3, verses = 0\<rparr>]"

section \<open>Properties of the partitioner\<close>





lemma count_pairs_fst: "a \<noteq> b \<Longrightarrow> count_list (concat (replicate k [a, b])) a = k"
  by (induction k) simp_all



























section \<open>Properties of the renderer\<close>

lemma meta_at_nonneg:
  "0 \<le> b \<Longrightarrow> meta_at meta b = (if b < int (length meta) then Inr (meta ! nat b) else Inl IndexError)"
  by (simp add: meta_at_def)

lemma meta_at_InrD:
  "meta_at meta b = Inr bk \<Longrightarrow> 0 \<le> b \<Longrightarrow> b < int (length meta) \<and> bk = meta ! nat b"
  by (simp add: meta_at_nonneg split: if_splits)

lemma units_before_step:
  assumes "0 \<le> b" and "b < int (length meta)"
  shows "units_before meta (b + 1) = units_before meta b + chapters (meta ! nat b)"
proof -
  have "nat (b + 1) = Suc (nat b)" using assms by simp
  moreover have "nat b < length meta" using assms by simp
  ultimately show ?thesis
    by (simp add: units_before_def take_Suc_conv_app_nth)
qed

lemma units_before_all: "int (length meta) \<le> b \<Longrightarrow> units_before meta b = capacity meta"
  by (simp add: units_before_def capacity_def)

lemma reading_in_bounds:
  "0 \<le> b \<Longrightarrow> b < int (length meta) \<Longrightarrow>
   units_before meta b + curr_chapter + day - 1 \<le> capacity meta \<Longrightarrow>
   \<exists>t. get_day_reading_text meta b curr_chapter day = Inr t"
proof (induction meta b curr_chapter day rule: get_day_reading_text.induct)
  case (1 meta b curr_chapter day)
  let ?bk = "meta ! nat b"
  have at: "meta_at meta b = Inr ?bk"
    using "1.prems" by (simp add: meta_at_nonneg)
  show ?case
  proof (cases "curr_chapter + day - 1 \<le> chapters ?bk")
    case True
    then show ?thesis
      by (subst get_day_reading_text.simps) (simp add: at)
  next
    case False
    let ?d = "day - (chapters ?bk - curr_chapter) - 1"
    have step: "units_before meta (b + 1) = units_before meta b + chapters ?bk"
      using "1.prems" by (simp add: units_before_step)
    have le: "units_before meta (b + 1) + 1 + ?d - 1 \<le> capacity meta"
      using "1.prems"(3) step by simp
    have "b + 1 < int (length meta)"
    proof (rule ccontr)
      assume "\<not> b + 1 < int (length meta)"
      then have "units_before meta (b + 1) = capacity meta"
        by (simp add: units_before_all)
      with le False show False by simp
    qed
    then obtain t where "get_day_reading_text meta (b + 1) 1 ?d = Inr t"
      using "1.IH" [OF at False] "1.prems"(1) le by auto
    then show ?thesis
      using False by (subst get_day_reading_text.simps) (simp add: at)
  qed
qed

lemma advance_in_bounds:
  "0 \<le> b \<Longrightarrow> b < int (length meta) \<Longrightarrow> bk = meta ! nat b \<Longrightarrow>
   units_before meta b + curr_chapter - 1 < capacity meta \<Longrightarrow>
   \<exists>b' c'. advance_book meta b curr_chapter bk = Inr (b', c', meta ! nat b') \<and>
            b \<le> b' \<and> b' < int (length meta) \<and>
            units_before meta b' + c' = units_before meta b + curr_chapter"
proof (induction meta b curr_chapter bk rule: advance_book.induct)
  case (1 meta b curr_chapter bk)
  show ?case
  proof (cases "curr_chapter > chapters bk")
    case False
    then show ?thesis
      using "1.prems" by (subst advance_book.simps) simp
  next
    case True
    have step: "units_before meta (b + 1) = units_before meta b + chapters bk"
      using "1.prems" by (simp add: units_before_step)
    have lt: "b + 1 < int (length meta)"
    proof (rule ccontr)
      assume "\<not> b + 1 < int (length meta)"
      then have "units_before meta (b + 1) = capacity meta"
        by (simp add: units_before_all)
      with step True "1.prems"(4) show False by simp
    qed
    then have at: "meta_at meta (b + 1) = Inr (meta ! nat (b + 1))"
      using "1.prems"(1) by (simp add: meta_at_nonneg)
    have "units_before meta (b + 1) + (curr_chapter - chapters bk) - 1 < capacity meta"
      using step "1.prems"(4) by simp
    then obtain b' c' where
      r: "advance_book meta (b + 1) (curr_chapter - chapters bk) (meta ! nat (b + 1)) =
            Inr (b', c', meta ! nat b')"
         "b + 1 \<le> b'" "b' < int (length meta)"
         "units_before meta b' + c' = units_before meta (b + 1) + (curr_chapter - chapters bk)"
      using "1.IH" [OF True at] "1.prems"(1) lt by auto
    have "advance_book meta b curr_chapter bk = Inr (b', c', meta ! nat b')"
      using True r(1) by (subst advance_book.simps) (simp add: at)
    then show ?thesis
      using r(2,3,4) step by auto
  qed
qed

lemma plan_loop_in_bounds:
  "len = i + int (length qs) \<Longrightarrow> \<forall>q \<in> set qs. 0 < q \<Longrightarrow>
   0 \<le> s_b s \<Longrightarrow> s_b s < int (length meta) \<Longrightarrow> s_curr_book s = meta ! nat (s_b s) \<Longrightarrow>
   consumed meta s + sum_list qs \<le> capacity meta \<Longrightarrow>
   \<exists>rows final. plan_loop meta len i s qs = Inr (rows, final) \<and> length rows = length qs"
proof (induction qs arbitrary: i s)
  case Nil
  show ?case by simp
next
  case (Cons day rest)
  have "units_before meta (s_b s) + s_curr_chapter s + day - 1 \<le> capacity meta"
  proof -
    have "0 \<le> sum_list rest"
      using Cons.prems(2) by (intro sum_list_nonneg) auto
    then show ?thesis
      using Cons.prems(6) by (simp add: consumed_def)
  qed
  then obtain t where t: "get_day_reading_text meta (s_b s) (s_curr_chapter s) day = Inr t"
    using reading_in_bounds Cons.prems(3,4) by blast
  show ?case
  proof (cases "rest = []")
    case True
    then have "i = len - 1" using Cons.prems(1) by simp
    then show ?thesis using True t by simp
  next
    case False
    then have ne: "i \<noteq> len - 1" using Cons.prems(1) by auto
    have "0 < sum_list rest"
      using False Cons.prems(2) by (cases rest) (auto intro!: add_pos_nonneg sum_list_nonneg)
    then have "units_before meta (s_b s) + (s_curr_chapter s + day) - 1 < capacity meta"
      using Cons.prems(6) by (simp add: consumed_def)
    then obtain b' c' where
      adv: "advance_book meta (s_b s) (s_curr_chapter s + day) (s_curr_book s) =
              Inr (b', c', meta ! nat b')"
        and b': "s_b s \<le> b'" "b' < int (length meta)"
        and u: "units_before meta b' + c' = units_before meta (s_b s) + (s_curr_chapter s + day)"
      using advance_in_bounds [OF Cons.prems(3,4,5)] by blast
    let ?s' = "\<lparr>s_b = b', s_curr_day = s_curr_day s + 1,
                s_curr_book = meta ! nat b', s_curr_chapter = c'\<rparr>"
    have c: "consumed meta ?s' + sum_list rest \<le> capacity meta"
      using u Cons.prems(6) by (simp add: consumed_def)
    obtain rows final where
      "plan_loop meta len (i + 1) ?s' rest = Inr (rows, final)" "length rows = length rest"
      using Cons.IH [of "i + 1" ?s'] Cons.prems(1,2,3) b' c by auto
    then show ?thesis
      using t ne adv by simp
  qed
qed

text \<open>
  C4.  In-bounds rendering: for a non-empty list of books with positive numbers
  of chapters and a non-empty list of positive quotas whose sum is at most the
  sum of the chapters, rendering all days returns its rows, one for each quota.
  IndexError is what a lookup \<open>meta[b]\<close> out of range raises, in
  \<open>get_day_reading_text\<close> as in the loop that advances the cursor, and it would
  be the result; so every lookup is within the list.
\<close>

theorem render_in_bounds:
  assumes "meta \<noteq> []" and "\<forall>c \<in> set meta. 0 < chapters c"
    and "quotas \<noteq> []" and "\<forall>q \<in> set quotas. 0 < q"
    and "sum_list quotas \<le> capacity meta"
  shows "\<exists>rows final. write_plan meta quotas start = Inr (rows, final) \<and>
           length rows = length quotas"
proof -
  have at: "meta_at meta 0 = Inr (meta ! 0)"
    using assms(1) by (simp add: meta_at_nonneg)
  let ?s = "\<lparr>s_b = 0, s_curr_day = start, s_curr_book = meta ! 0, s_curr_chapter = 1\<rparr>"
  have "consumed meta ?s = 0"
    by (simp add: consumed_def units_before_def)
  then have "\<exists>rows final. plan_loop meta (int (length quotas)) 0 ?s quotas = Inr (rows, final) \<and>
           length rows = length quotas"
    using assms by (intro plan_loop_in_bounds) simp_all
  then show ?thesis
    by (simp add: write_plan_def write_plan_upto_def at)
qed

theorem render_in_bounds_witness:
  "alpha_beta \<noteq> [] \<and> [4, 2, 2] \<noteq> ([] :: int list) \<and>
   sum_list [4, 2, 2] \<le> capacity alpha_beta \<and>
   (\<exists>rows final. write_plan alpha_beta [4, 2, 2] 0 = Inr (rows, final) \<and>
       length rows = length [4, 2, 2 :: int])"
proof -
  have h: "alpha_beta \<noteq> []" "\<forall>c \<in> set alpha_beta. 0 < chapters c"
    "[4, 2, 2] \<noteq> ([] :: int list)" "\<forall>q \<in> set [4, 2, 2 :: int]. 0 < q"
    "sum_list [4, 2, 2] \<le> capacity alpha_beta"
    by (simp_all add: alpha_beta_def capacity_def)
  show ?thesis
    using h render_in_bounds [OF h, of 0] by blast
qed

text \<open>
  C3.  The example of the specification, as the code runs it: for the books
  Alpha (5 chapters) and Beta (3 chapters) and the quotas 4, 2, 2 there are
  three rows, with the texts \<open>Alpha 1-4\<close>, \<open>Alpha 5; Beta 1\<close> and \<open>Beta 2-3\<close>.
  The cursor is not advanced after the last day: it ends at book 1, chapter 2,
  with 6 units behind it, and the last day's 2 units end at unit 8, the
  capacity.
\<close>

theorem example_render:
  "write_plan alpha_beta [4, 2, 2] start =
     Inr ([(start, ''Alpha 1-4''), (start + 1, ''Alpha 5; Beta 1''), (start + 2, ''Beta 2-3'')],
          \<lparr>s_b = 1, s_curr_day = start + 2,
           s_curr_book = \<lparr>name = ''Beta'', chapters = 3, verses = 0\<rparr>,
           s_curr_chapter = 2\<rparr>) \<and>
   consumed alpha_beta
          \<lparr>s_b = 1, s_curr_day = start + 2,
           s_curr_book = \<lparr>name = ''Beta'', chapters = 3, verses = 0\<rparr>,
           s_curr_chapter = 2\<rparr> = 6 \<and>
   6 + 2 = capacity alpha_beta"
proof -
  have s: "str_int 1 = ''1''" "str_int 2 = ''2''" "str_int 3 = ''3''" "str_int 4 = ''4''"
    "str_int 5 = ''5''"
    by code_simp+
  show ?thesis
    by (simp add: write_plan_def write_plan_upto_def alpha_beta_def meta_at_def
        get_day_reading_text.simps advance_book.simps s consumed_def units_before_def
        capacity_def)
qed

theorem example_final_cursor_counterexample:
  "write_plan alpha_beta [4, 2, 2] 0 =
     Inr ([(0, ''Alpha 1-4''), (1, ''Alpha 5; Beta 1''), (2, ''Beta 2-3'')],
          \<lparr>s_b = 1, s_curr_day = 2,
           s_curr_book = \<lparr>name = ''Beta'', chapters = 3, verses = 0\<rparr>,
           s_curr_chapter = 2\<rparr>) \<and>
   consumed alpha_beta
          \<lparr>s_b = 1, s_curr_day = 2,
           s_curr_book = \<lparr>name = ''Beta'', chapters = 3, verses = 0\<rparr>,
           s_curr_chapter = 2\<rparr> \<noteq> 8"
  by code_simp

lemma advance_forward:
  "advance_book meta b curr_chapter bk = Inr (b', c', bk') \<Longrightarrow>
   0 \<le> b \<Longrightarrow> b < int (length meta) \<Longrightarrow> bk = meta ! nat b \<Longrightarrow>
   b \<le> b' \<and> b' < int (length meta) \<and> bk' = meta ! nat b' \<and>
   units_before meta b' + c' = units_before meta b + curr_chapter"
proof (induction meta b curr_chapter bk rule: advance_book.induct)
  case (1 meta b curr_chapter bk)
  show ?case
  proof (cases "curr_chapter > chapters bk")
    case False
    then show ?thesis
      using "1.prems" by (subst (asm) advance_book.simps) auto
  next
    case True
    then obtain nb where at: "meta_at meta (b + 1) = Inr nb"
      and r: "advance_book meta (b + 1) (curr_chapter - chapters bk) nb = Inr (b', c', bk')"
      using "1.prems"(1) by (subst (asm) advance_book.simps) (simp split: sum.splits)
    have nb: "b + 1 < int (length meta)" "nb = meta ! nat (b + 1)"
      using meta_at_InrD [OF at] "1.prems"(2) by simp_all
    have step: "units_before meta (b + 1) = units_before meta b + chapters bk"
      using "1.prems" by (simp add: units_before_step)
    show ?thesis
      using "1.IH" [OF True at r _ nb] "1.prems"(2) step by simp
  qed
qed

lemma plan_loop_prefix:
  "plan_loop meta len i s qs = Inr (rows, s') \<Longrightarrow> i + int (length qs) < len \<Longrightarrow>
   0 \<le> s_b s \<Longrightarrow> s_b s < int (length meta) \<Longrightarrow> s_curr_book s = meta ! nat (s_b s) \<Longrightarrow>
   s_b s \<le> s_b s' \<and> s_b s' < int (length meta) \<and> s_curr_book s' = meta ! nat (s_b s') \<and>
   consumed meta s' = consumed meta s + sum_list qs"
proof (induction qs arbitrary: i s rows)
  case Nil
  then show ?case by simp
next
  case (Cons day rest)
  have ne: "i \<noteq> len - 1" using Cons.prems(2) by simp
  from Cons.prems(1) ne obtain t b' c' bk' rows' where
    adv: "advance_book meta (s_b s) (s_curr_chapter s + day) (s_curr_book s) = Inr (b', c', bk')"
    and rest: "plan_loop meta len (i + 1)
                 \<lparr>s_b = b', s_curr_day = s_curr_day s + 1, s_curr_book = bk',
                  s_curr_chapter = c'\<rparr> rest = Inr (rows', s')"
    by (auto split: sum.splits prod.splits)
  note a = advance_forward [OF adv Cons.prems(3,4,5)]
  let ?s1 = "\<lparr>s_b = b', s_curr_day = s_curr_day s + 1, s_curr_book = bk', s_curr_chapter = c'\<rparr>"
  have c1: "consumed meta ?s1 = consumed meta s + day"
    using a by (simp add: consumed_def)
  have "s_b ?s1 \<le> s_b s' \<and> s_b s' < int (length meta) \<and> s_curr_book s' = meta ! nat (s_b s') \<and>
        consumed meta s' = consumed meta ?s1 + sum_list rest"
    using Cons.prems(2,3) a by (intro Cons.IH [OF rest]) simp_all
  then show ?case
    using a c1 by simp
qed

lemma plan_loop_append:
  "plan_loop meta len i s (xs @ ys) =
     (case plan_loop meta len i s xs of
        Inl e \<Rightarrow> Inl e
      | Inr (rows1, s1) \<Rightarrow>
          (case plan_loop meta len (i + int (length xs)) s1 ys of
             Inl e \<Rightarrow> Inl e
           | Inr (rows2, s2) \<Rightarrow> Inr (rows1 @ rows2, s2)))"
proof (induction xs arbitrary: i s)
  case Nil
  show ?case by (simp split: sum.splits prod.splits)
next
  case (Cons day rest)
  define body where "body =
    (case get_day_reading_text meta (s_b s) (s_curr_chapter s) day of
       Inl e \<Rightarrow> Inl e
     | Inr t \<Rightarrow>
         (case (if i \<noteq> len - 1 then
                  (case advance_book meta (s_b s) (s_curr_chapter s + day) (s_curr_book s) of
                     Inl e \<Rightarrow> Inl e
                   | Inr (b', curr_chapter', curr_book') \<Rightarrow>
                       Inr \<lparr>s_b = b', s_curr_day = s_curr_day s + 1,
                            s_curr_book = curr_book', s_curr_chapter = curr_chapter'\<rparr>)
                else Inr s) of
            Inl e \<Rightarrow> Inl e
          | Inr s1 \<Rightarrow> Inr (t, s1)))"
  have unfold: "plan_loop meta len i s (day # zs) =
    (case body of
       Inl e \<Rightarrow> Inl e
     | Inr (t, s1) \<Rightarrow>
         (case plan_loop meta len (i + 1) s1 zs of
            Inl e \<Rightarrow> Inl e
          | Inr (rows, final) \<Rightarrow> Inr ((s_curr_day s, t) # rows, final)))" for zs
    unfolding body_def plan_loop.simps
    by (simp split: sum.split prod.split split del: if_split)
  have ix: "i + 1 + int (length rest) = i + int (length (day # rest))" by simp
  show ?case
  proof (cases body)
    case (Inl e)
    then show ?thesis by (simp only: append_Cons unfold sum.case)
  next
    case (Inr p)
    obtain t s1 where p: "p = (t, s1)" by (cases p)
    show ?thesis
      unfolding append_Cons unfold Inr p sum.case prod.case Cons.IH ix
      by (simp split: sum.split prod.split)
  qed
qed

lemma plan_loop_rows:
  "plan_loop meta len i s qs = Inr (rows, s') \<Longrightarrow> i + int (length qs) \<le> len \<Longrightarrow>
   map fst rows = map (\<lambda>j. s_curr_day s + int j) [0..<length qs]"
proof (induction qs arbitrary: i s rows)
  case Nil
  then show ?case by simp
next
  case (Cons day rest)
  show ?case
  proof (cases "rest = []")
    case True
    then show ?thesis
      using Cons.prems(1) by (auto split: sum.splits prod.splits if_splits)
  next
    case False
    then have ne: "i \<noteq> len - 1" using Cons.prems(2) by (cases rest) auto
    from Cons.prems(1) ne obtain t b' c' bk' rows' where
      rows: "rows = (s_curr_day s, t) # rows'"
      and rest: "plan_loop meta len (i + 1)
                 \<lparr>s_b = b', s_curr_day = s_curr_day s + 1, s_curr_book = bk',
                  s_curr_chapter = c'\<rparr> rest = Inr (rows', s')"
      by (auto split: sum.splits prod.splits)
    have "map fst rows' = map (\<lambda>j. s_curr_day s + 1 + int j) [0..<length rest]"
      using Cons.IH [OF rest] Cons.prems(2) by simp
    also have "\<dots> = map (\<lambda>j. s_curr_day s + int j) (map Suc [0..<length rest])"
      by (simp add: algebra_simps)
    finally show ?thesis
      by (simp add: rows upt_conv_Cons map_Suc_upt del: upt_Suc)
  qed
qed

lemma plan_loop_length:
  "plan_loop meta len i s qs = Inr (rows, s') \<Longrightarrow> length rows = length qs"
  by (induction qs arbitrary: i s rows) (auto split: sum.splits prod.splits if_splits)

lemma initial_state:
  assumes "write_plan_upto meta quotas start k = Inr (rows, s)"
  shows "0 < int (length meta)" and
    "plan_loop meta (int (length quotas)) 0
       \<lparr>s_b = 0, s_curr_day = start, s_curr_book = meta ! 0, s_curr_chapter = 1\<rparr>
       (take k quotas) = Inr (rows, s)"
proof -
  obtain bk where at: "meta_at meta 0 = Inr bk"
    using assms by (cases "meta_at meta 0") (simp_all add: write_plan_upto_def)
  show "0 < int (length meta)" "plan_loop meta (int (length quotas)) 0
       \<lparr>s_b = 0, s_curr_day = start, s_curr_book = meta ! 0, s_curr_chapter = 1\<rparr>
       (take k quotas) = Inr (rows, s)"
    using meta_at_InrD [OF at] assms by (simp_all add: write_plan_upto_def at)
qed

text \<open>
  C10.  Cursor consumption invariant: at the start of each day, that is when the
  first \<open>k\<close> days have been rendered for a \<open>k\<close> below the number of days, the units
  behind the cursor (the chapters of the books before book \<open>b\<close>, plus
  \<open>curr_chapter - 1\<close>) are the sum of the first \<open>k\<close> quotas.  Against every
  earlier day \<open>j \<le> k\<close> the book index \<open>b\<close> has not decreased, and with quotas
  that are not negative the units behind the cursor have not decreased.
  Nothing is said of \<open>curr_chapter\<close> alone, which restarts in each book.
\<close>

theorem cursor_consumption:
  assumes "k < length quotas" and "write_plan_upto meta quotas start k = Inr (rows, s)"
  shows "consumed meta s = sum_list (take k quotas) \<and>
         (\<forall>j \<le> k. \<exists>rows' s'. write_plan_upto meta quotas start j = Inr (rows', s') \<and>
              consumed meta s' = sum_list (take j quotas) \<and> s_b s' \<le> s_b s \<and>
              ((\<forall>q \<in> set quotas. 0 \<le> q) \<longrightarrow> consumed meta s' \<le> consumed meta s))"
proof -
  let ?n = "int (length quotas)"
  let ?s0 = "\<lparr>s_b = 0, s_curr_day = start, s_curr_book = meta ! 0, s_curr_chapter = 1\<rparr>"
  note i = initial_state [OF assms(2)]
  obtain bk where at: "meta_at meta 0 = Inr bk"
    using assms(2) by (cases "meta_at meta 0") (simp_all add: write_plan_upto_def)
  have bk: "bk = meta ! 0" using meta_at_InrD [OF at] by simp
  have c0: "consumed meta ?s0 = 0"
    by (simp add: consumed_def units_before_def)
  have whole: "consumed meta s = sum_list (take k quotas)"
    using plan_loop_prefix [OF i(2)] assms(1) i(1) c0 by simp
  have part: "\<exists>rows' s'. write_plan_upto meta quotas start j = Inr (rows', s') \<and>
              consumed meta s' = sum_list (take j quotas) \<and> s_b s' \<le> s_b s \<and>
              ((\<forall>q \<in> set quotas. 0 \<le> q) \<longrightarrow> consumed meta s' \<le> consumed meta s)"
    if j: "j \<le> k" for j
  proof -
    let ?xs = "take j quotas" and ?ys = "drop j (take k quotas)"
    have tk: "take k quotas = ?xs @ ?ys"
      using j by (metis append_take_drop_id min.absorb1 take_take)
    have lx: "length ?xs = j" using j assms(1) by simp
    have ly: "int j + int (length ?ys) < ?n" using j assms(1) by simp
    have "plan_loop meta ?n 0 ?s0 (?xs @ ?ys) = Inr (rows, s)"
      by (subst tk [symmetric]) (rule i(2))
    then obtain rows1 s1 rows2 where
      r1: "plan_loop meta ?n 0 ?s0 ?xs = Inr (rows1, s1)" and
      r2: "plan_loop meta ?n (0 + int (length ?xs)) s1 ?ys = Inr (rows2, s)"
      unfolding plan_loop_append by (auto split: sum.splits prod.splits)
    have p1: "s_b s1 < int (length meta)" "0 \<le> s_b s1" "s_curr_book s1 = meta ! nat (s_b s1)"
      "consumed meta s1 = sum_list ?xs"
      using plan_loop_prefix [OF r1] lx j assms(1) i(1) c0 by simp_all
    have p2: "s_b s1 \<le> s_b s" "consumed meta s = consumed meta s1 + sum_list ?ys"
      using plan_loop_prefix [OF r2] lx ly p1 by simp_all
    have w: "write_plan_upto meta quotas start j = Inr (rows1, s1)"
      using r1 by (simp add: write_plan_upto_def at bk)
    have "0 \<le> sum_list ?ys" if "\<forall>q \<in> set quotas. 0 \<le> q"
      using that by (intro sum_list_nonneg) (auto dest!: in_set_dropD in_set_takeD)
    then show ?thesis
      using w p1(4) p2 by auto
  qed
  show ?thesis
    using whole part by blast
qed

theorem cursor_consumption_witness:
  "2 < length [4, 2, 2 :: int] \<and>
   write_plan_upto alpha_beta [4, 2, 2] 0 2 =
     Inr ([(0, ''Alpha 1-4''), (1, ''Alpha 5; Beta 1'')],
          \<lparr>s_b = 1, s_curr_day = 2,
           s_curr_book = \<lparr>name = ''Beta'', chapters = 3, verses = 0\<rparr>,
           s_curr_chapter = 2\<rparr>) \<and>
   consumed alpha_beta
          \<lparr>s_b = 1, s_curr_day = 2,
           s_curr_book = \<lparr>name = ''Beta'', chapters = 3, verses = 0\<rparr>,
           s_curr_chapter = 2\<rparr> = sum_list (take 2 [4, 2, 2])"
proof -
  have h1: "2 < length [4, 2, 2 :: int]" by simp
  have h2: "write_plan_upto alpha_beta [4, 2, 2] 0 2 =
     Inr ([(0, ''Alpha 1-4''), (1, ''Alpha 5; Beta 1'')],
          \<lparr>s_b = 1, s_curr_day = 2,
           s_curr_book = \<lparr>name = ''Beta'', chapters = 3, verses = 0\<rparr>,
           s_curr_chapter = 2\<rparr>)"
    by code_simp
  show ?thesis
    using h1 h2 cursor_consumption [OF h1 h2] by blast
qed

theorem position_moves_back_counterexample:
  "write_plan_upto alpha_beta [4, 2, 2] 0 1 =
     Inr ([(0, ''Alpha 1-4'')],
          \<lparr>s_b = 0, s_curr_day = 1,
           s_curr_book = \<lparr>name = ''Alpha'', chapters = 5, verses = 0\<rparr>,
           s_curr_chapter = 5\<rparr>) \<and>
   write_plan_upto alpha_beta [4, 2, 2] 0 2 =
     Inr ([(0, ''Alpha 1-4''), (1, ''Alpha 5; Beta 1'')],
          \<lparr>s_b = 1, s_curr_day = 2,
           s_curr_book = \<lparr>name = ''Beta'', chapters = 3, verses = 0\<rparr>,
           s_curr_chapter = 2\<rparr>) \<and>
   (2::int) < 5"
  by code_simp

text \<open>
  C9.  Calendar advancement: \<open>generate_plan\<close> has no flag for the calendar.  Its
  one boolean parameter, \<open>write\<close>, chooses where the rows go and changes nothing
  else.  Whenever a plan is returned, the date of each row is the date of the
  row before it plus one day, starting from \<open>start\<close>.
\<close>

theorem dates_always_advance:
  assumes "generate_plan meta duration start nchapters write = Some (Inr p)"
  shows "map fst (plan_rows p) = map (\<lambda>j. start + int j) [0..<length (plan_rows p)] \<and>
         generate_plan meta duration start nchapters (\<not> write) =
           Some (Inr (p\<lparr>plan_to_file := \<not> write\<rparr>))"
proof -
  from assms obtain quotas rows final where
    q: "plan_quotas nchapters duration = Some (Inr quotas)"
    and w: "write_plan meta quotas start = Inr (rows, final)"
    and p: "p = \<lparr>plan_rows = rows, plan_to_file = write\<rparr>"
    by (auto simp: generate_plan_def split: option.splits sum.splits prod.splits)
  have w': "write_plan_upto meta quotas start (length quotas) = Inr (rows, final)"
    using w by (simp add: write_plan_def)
  note i = initial_state [OF w']
  have l: "length rows = length quotas"
    using plan_loop_length [OF i(2)] by simp
  have "map fst rows = map (\<lambda>j. start + int j) [0..<length quotas]"
    using plan_loop_rows [OF i(2)] by simp
  then show ?thesis
    using l by (simp add: p generate_plan_def q w)
qed

theorem dates_always_advance_witness:
  "generate_plan alpha_beta 3 0 8 False =
     Some (Inr \<lparr>plan_rows = [(0, ''Alpha 1-2''), (1, ''Alpha 3-5''), (2, ''Beta 1-3'')],
                plan_to_file = False\<rparr>) \<and>
   map fst [(0::int, ''Alpha 1-2''), (1, ''Alpha 3-5''), (2, ''Beta 1-3'')] = [0, 1, 2] \<and>
   generate_plan alpha_beta 3 0 8 True =
     Some (Inr \<lparr>plan_rows = [(0, ''Alpha 1-2''), (1, ''Alpha 3-5''), (2, ''Beta 1-3'')],
                plan_to_file = True\<rparr>)"
proof -
  have h: "generate_plan alpha_beta 3 0 8 False =
     Some (Inr \<lparr>plan_rows = [(0, ''Alpha 1-2''), (1, ''Alpha 3-5''), (2, ''Beta 1-3'')],
                plan_to_file = False\<rparr>)"
    by code_simp
  show ?thesis
    using h dates_always_advance [OF h] by simp
qed

theorem no_calendar_flag_counterexample:
  "generate_plan alpha_beta 3 0 8 False =
     Some (Inr \<lparr>plan_rows = [(0, ''Alpha 1-2''), (1, ''Alpha 3-5''), (2, ''Beta 1-3'')],
                plan_to_file = False\<rparr>) \<and>
   map fst [(0::int, ''Alpha 1-2''), (1, ''Alpha 3-5''), (2, ''Beta 1-3'')] \<noteq> [0, 0, 0]"
  by code_simp




subsection \<open>The text of one day\<close>

lemma digit_char_digit: "d < 10 \<Longrightarrow> digit_char d \<in> set ''0123456789''"
  unfolding digit_char_def by (rule nth_mem) simp

lemma str_nat_digits: "set (str_nat k) \<subseteq> set ''0123456789''"
proof (induction k rule: str_nat.induct)
  case (1 k)
  show ?case
  proof (cases "k < 10")
    case True
    then show ?thesis
      using digit_char_digit [of k] by (subst str_nat.simps) simp
  next
    case False
    have "k mod 10 < 10" by simp
    then have "digit_char (k mod 10) \<in> set ''0123456789''"
      by (rule digit_char_digit)
    then show ?thesis
      using False "1.IH" by (subst str_nat.simps) simp
  qed
qed

lemma str_int_no_semicolon: "CHR '';'' \<notin> set (str_int k)"
  using str_nat_digits [of "nat k"] str_nat_digits [of "nat (- k)"]
  by (auto simp: str_int_def)

lemma describe_calls_Cons:
  "\<exists>calls. describe_calls meta b curr_chapter day = (b, curr_chapter, day) # calls"
  by (subst describe_calls.simps) (simp split: sum.splits)

text \<open>
  C7.  Exact-boundary day: when the day's reading ends on the last chapter of
  the current book (\<open>curr_chapter + day - 1\<close> is the book's number of
  chapters), the result is one segment, the name of the current book and one
  range.  There is no recursive call, the range has no semicolon, and neither
  has the whole text unless the name of the book has one.
\<close>

theorem exact_boundary:
  assumes "meta_at meta b = Inr curr_book"
    and "curr_chapter + day - 1 = chapters curr_book"
  shows "get_day_reading_text meta b curr_chapter day =
           Inr (name curr_book @ '' '' @
                (if day \<noteq> 1 then str_int curr_chapter @ ''-'' @ str_int (chapters curr_book)
                 else str_int curr_chapter)) \<and>
         describe_calls meta b curr_chapter day = [(b, curr_chapter, day)] \<and>
         CHR '';'' \<notin> set (if day \<noteq> 1
                            then str_int curr_chapter @ ''-'' @ str_int (chapters curr_book)
                            else str_int curr_chapter) \<and>
         (CHR '';'' \<notin> set (name curr_book) \<longrightarrow>
            (\<exists>t. get_day_reading_text meta b curr_chapter day = Inr t \<and> CHR '';'' \<notin> set t))"
proof -
  let ?r = "if day \<noteq> 1 then str_int curr_chapter @ ''-'' @ str_int (chapters curr_book)
            else str_int curr_chapter"
  have t: "get_day_reading_text meta b curr_chapter day = Inr (name curr_book @ '' '' @ ?r)"
    using assms by (subst get_day_reading_text.simps) simp
  have c: "describe_calls meta b curr_chapter day = [(b, curr_chapter, day)]"
    using assms by (subst describe_calls.simps) simp
  have r: "CHR '';'' \<notin> set ?r"
    by (simp add: str_int_no_semicolon)
  have "CHR '';'' \<notin> set (name curr_book @ '' '' @ ?r)" if "CHR '';'' \<notin> set (name curr_book)"
    using that r by (simp del: set_append add: set_append [of "name curr_book"] split: if_splits)
  then show ?thesis
    using t c r by blast
qed

theorem exact_boundary_witness:
  "meta_at alpha_beta 0 = Inr \<lparr>name = ''Alpha'', chapters = 5, verses = 0\<rparr> \<and>
   (3::int) + 3 - 1 = chapters \<lparr>name = ''Alpha'', chapters = 5, verses = 0\<rparr> \<and>
   get_day_reading_text alpha_beta 0 3 3 = Inr ''Alpha 3-5'' \<and>
   describe_calls alpha_beta 0 3 3 = [(0, 3, 3)]"
proof -
  have h1: "meta_at alpha_beta 0 = Inr \<lparr>name = ''Alpha'', chapters = 5, verses = 0\<rparr>"
    by (simp add: meta_at_def alpha_beta_def)
  have h2: "(3::int) + 3 - 1 = chapters \<lparr>name = ''Alpha'', chapters = 5, verses = 0\<rparr>"
    by simp
  have s: "str_int 3 = ''3''" "str_int 5 = ''5''"
    by code_simp+
  show ?thesis
    using h1 h2 exact_boundary [OF h1 h2] by (simp add: s)
qed

subsection \<open>The books that a day spans\<close>

lemma spanned_shift: "spanned (u + d) (v + d) (pre + d) cs = spanned u v pre cs"
proof (induction cs arbitrary: pre)
  case Nil
  show ?case by simp
next
  case (Cons c cs)
  have e: "pre + d + c = (pre + c) + d" by simp
  show ?case
    by (simp only: spanned.simps e Cons.IH) simp
qed

lemma spanned_past: "v \<le> pre \<Longrightarrow> \<forall>c \<in> set cs. 0 \<le> c \<Longrightarrow> spanned u v pre cs = 0"
  by (induction cs arbitrary: pre) simp_all

lemma spanned_before:
  "pre + sum_list cs < u \<Longrightarrow> \<forall>c \<in> set cs. 0 \<le> c \<Longrightarrow> spanned u v pre cs = 0"
proof (induction cs arbitrary: pre)
  case Nil
  show ?case by simp
next
  case (Cons c cs)
  have "0 \<le> sum_list cs"
    using Cons.prems(2) by (intro sum_list_nonneg) simp
  then have "\<not> u \<le> pre + c"
    using Cons.prems(1) by simp
  moreover have "spanned u v (pre + c) cs = 0"
    using Cons.prems by (intro Cons.IH) (simp_all add: add.assoc)
  ultimately show ?case by simp
qed

lemma spanned_append:
  "spanned u v pre (xs @ ys) = spanned u v pre xs + spanned u v (pre + sum_list xs) ys"
  by (induction xs arbitrary: pre) (simp_all add: add.assoc)

lemma spanned_low:
  "u \<le> 1 \<Longrightarrow> u' \<le> 1 \<Longrightarrow> 0 \<le> pre \<Longrightarrow> \<forall>c \<in> set cs. 0 < c \<Longrightarrow>
   spanned u v pre cs = spanned u' v pre cs"
proof (induction cs arbitrary: pre)
  case Nil
  show ?case by simp
next
  case (Cons c cs)
  have c: "0 < c" using Cons.prems(4) by simp
  then have "u \<le> pre + c" "u' \<le> pre + c"
    using Cons.prems(1,2,3) by simp_all
  moreover have "spanned u v (pre + c) cs = spanned u' v (pre + c) cs"
    using Cons.prems c by (intro Cons.IH) simp_all
  ultimately show ?case by simp
qed

lemma day_span_local:
  assumes "0 \<le> b" and "1 \<le> curr_chapter" and "\<forall>c \<in> set meta. 0 < chapters c"
  shows "day_span meta b curr_chapter day =
         spanned curr_chapter (curr_chapter + day - 1) 0 (map chapters (drop (nat b) meta))"
proof -
  let ?ub = "units_before meta b"
  let ?xs = "map chapters (take (nat b) meta)" and ?ys = "map chapters (drop (nat b) meta)"
  have split: "map chapters meta = ?xs @ ?ys"
    by (simp flip: map_append)
  have nn: "\<forall>c \<in> set ?xs. 0 \<le> c"
    using assms(3) by (auto dest!: in_set_takeD intro: less_imp_le)
  have before: "spanned (?ub + curr_chapter) (?ub + curr_chapter + day - 1) 0 ?xs = 0"
    using assms(2) nn by (intro spanned_before) (simp_all add: units_before_def)
  have "spanned (?ub + curr_chapter) (?ub + curr_chapter + day - 1) ?ub ?ys =
        spanned (curr_chapter + ?ub) ((curr_chapter + day - 1) + ?ub) (0 + ?ub) ?ys"
    by (simp add: algebra_simps)
  also have "\<dots> = spanned curr_chapter (curr_chapter + day - 1) 0 ?ys"
    by (rule spanned_shift)
  finally have after: "spanned (?ub + curr_chapter) (?ub + curr_chapter + day - 1) ?ub ?ys =
        spanned curr_chapter (curr_chapter + day - 1) 0 ?ys" .
  have "day_span meta b curr_chapter day =
        spanned (?ub + curr_chapter) (?ub + curr_chapter + day - 1) 0 (?xs @ ?ys)"
    unfolding day_span_def by (subst split) (rule refl)
  also have "\<dots> = spanned curr_chapter (curr_chapter + day - 1) 0 ?ys"
    unfolding spanned_append before using after by (simp add: units_before_def)
  finally show ?thesis .
qed

lemma describe_calls_span:
  "0 \<le> b \<Longrightarrow> b < int (length meta) \<Longrightarrow> 1 \<le> curr_chapter \<Longrightarrow>
   curr_chapter \<le> chapters (meta ! nat b) \<Longrightarrow> 1 \<le> day \<Longrightarrow>
   units_before meta b + curr_chapter + day - 1 \<le> capacity meta \<Longrightarrow>
   \<forall>c \<in> set meta. 0 < chapters c \<Longrightarrow>
   length (describe_calls meta b curr_chapter day) =
     spanned curr_chapter (curr_chapter + day - 1) 0 (map chapters (drop (nat b) meta)) \<and>
   sorted_wrt (>) (map (\<lambda>(b, c, d). d) (describe_calls meta b curr_chapter day))"
proof (induction meta b curr_chapter day rule: describe_calls.induct)
  case (1 meta b curr_chapter day)
  let ?bk = "meta ! nat b"
  let ?cap = "chapters ?bk"
  let ?rest = "map chapters (drop (nat (b + 1)) meta)"
  have at: "meta_at meta b = Inr ?bk"
    using "1.prems" by (simp add: meta_at_nonneg)
  have nb: "nat b < length meta" using "1.prems"(1,2) by simp
  have "drop (nat b) meta = ?bk # drop (Suc (nat b)) meta"
    using nb by (simp add: Cons_nth_drop_Suc)
  moreover have "Suc (nat b) = nat (b + 1)" using "1.prems"(1) by simp
  ultimately have dr: "map chapters (drop (nat b) meta) = ?cap # ?rest"
    by simp
  have pos: "\<forall>c \<in> set ?rest. 0 < c"
    using "1.prems"(7) by (auto dest!: in_set_dropD)
  show ?case
  proof (cases "curr_chapter + day - 1 \<le> ?cap")
    case True
    have c: "describe_calls meta b curr_chapter day = [(b, curr_chapter, day)]"
      using True by (subst describe_calls.simps) (simp add: at)
    have "spanned curr_chapter (curr_chapter + day - 1) ?cap ?rest = 0"
      using True pos by (intro spanned_past) auto
    then show ?thesis
      using "1.prems"(3,4,5) by (simp add: c dr)
  next
    case False
    let ?d = "day - (?cap - curr_chapter) - 1"
    have c: "describe_calls meta b curr_chapter day =
             (b, curr_chapter, day) # describe_calls meta (b + 1) 1 ?d"
      using False by (subst describe_calls.simps) (simp add: at)
    have step: "units_before meta (b + 1) = units_before meta b + ?cap"
      using "1.prems" by (simp add: units_before_step)
    have le: "units_before meta (b + 1) + 1 + ?d - 1 \<le> capacity meta"
      using "1.prems"(6) step by simp
    have lt: "b + 1 < int (length meta)"
    proof (rule ccontr)
      assume "\<not> b + 1 < int (length meta)"
      then have "units_before meta (b + 1) = capacity meta"
        by (simp add: units_before_all)
      with le False show False by simp
    qed
    then have "meta ! nat (b + 1) \<in> set meta"
      using "1.prems"(1) by (intro nth_mem) simp
    then have cap1: "1 \<le> chapters (meta ! nat (b + 1))"
      using "1.prems"(7) by force
    have d1: "1 \<le> ?d" using False by simp
    have ih: "length (describe_calls meta (b + 1) 1 ?d) = spanned 1 (1 + ?d - 1) 0 ?rest \<and>
              sorted_wrt (>) (map (\<lambda>(b, c, d). d) (describe_calls meta (b + 1) 1 ?d))"
      using "1.prems"(1,7) lt cap1 d1 le by (intro "1.IH" [OF at False]) simp_all
    obtain calls where cs: "describe_calls meta (b + 1) 1 ?d = (b + 1, 1, ?d) # calls"
      using describe_calls_Cons by blast
    have "spanned curr_chapter (curr_chapter + day - 1) ?cap ?rest =
          spanned ((curr_chapter - ?cap) + ?cap) ((curr_chapter + day - 1 - ?cap) + ?cap) (0 + ?cap) ?rest"
      by simp
    also have "\<dots> = spanned (curr_chapter - ?cap) (curr_chapter + day - 1 - ?cap) 0 ?rest"
      by (rule spanned_shift)
    also have "\<dots> = spanned 1 (curr_chapter + day - 1 - ?cap) 0 ?rest"
      using "1.prems"(4) pos by (intro spanned_low) simp_all
    also have "curr_chapter + day - 1 - ?cap = 1 + ?d - 1" by simp
    finally have sp: "spanned curr_chapter (curr_chapter + day - 1) ?cap ?rest =
                      length (describe_calls meta (b + 1) 1 ?d)"
      using ih by simp
    have len: "length (describe_calls meta b curr_chapter day) =
               spanned curr_chapter (curr_chapter + day - 1) 0 (map chapters (drop (nat b) meta))"
      using False "1.prems"(3,4,5) sp by (simp add: c dr)
    have dec: "?d < day" using "1.prems"(4) by simp
    have "sorted_wrt (>) (map (\<lambda>(b, c, d). d) ((b + 1, 1, ?d) # calls))"
      using ih cs by simp
    then have "sorted_wrt (>) (day # map (\<lambda>(b, c, d). d) ((b + 1, 1, ?d) # calls))"
      using dec by auto
    then have "sorted_wrt (>) (map (\<lambda>(b, c, d). d) (describe_calls meta b curr_chapter day))"
      by (simp add: c cs)
    with len show ?thesis by simp
  qed
qed

lemma meta_at_in_set: "meta_at meta b = Inr bk \<Longrightarrow> bk \<in> set meta"
  by (auto simp: meta_at_def split: if_splits intro!: nth_mem)

lemma separators_count_calls:
  "get_day_reading_text meta b curr_chapter day = Inr t \<Longrightarrow>
   \<forall>bk \<in> set meta. CHR '';'' \<notin> set (name bk) \<Longrightarrow>
   Suc (count_list t CHR '';'') = length (describe_calls meta b curr_chapter day)"
proof (induction meta b curr_chapter day arbitrary: t rule: get_day_reading_text.induct)
  case (1 meta b curr_chapter day)
  from "1.prems"(1) obtain bk where at: "meta_at meta b = Inr bk"
    by (subst (asm) get_day_reading_text.simps) (simp split: sum.splits)
  have nm: "count_list (name bk) CHR '';'' = 0"
    using meta_at_in_set [OF at] "1.prems"(2) by simp
  have si: "count_list (str_int k) CHR '';'' = 0" for k
    by (simp add: str_int_no_semicolon)
  show ?case
  proof (cases "curr_chapter + day - 1 \<le> chapters bk")
    case True
    have "t = name bk @ '' '' @
            (if day \<noteq> 1 then str_int curr_chapter @ ''-'' @ str_int (curr_chapter + day - 1)
             else str_int curr_chapter)"
      using "1.prems"(1) True by (subst (asm) get_day_reading_text.simps) (simp add: at)
    then have "count_list t CHR '';'' = 0"
      by (simp add: nm si)
    moreover have "describe_calls meta b curr_chapter day = [(b, curr_chapter, day)]"
      using True by (subst describe_calls.simps) (simp add: at)
    ultimately show ?thesis by simp
  next
    case False
    let ?d = "day - (chapters bk - curr_chapter) - 1"
    from "1.prems"(1) False obtain u where
      u: "get_day_reading_text meta (b + 1) 1 ?d = Inr u" and
      t: "t = name bk @ '' '' @
            (if curr_chapter \<noteq> chapters bk
             then str_int curr_chapter @ ''-'' @ str_int (chapters bk) @ ''; ''
             else str_int curr_chapter @ ''; '') @ u"
      by (subst (asm) get_day_reading_text.simps) (auto simp: at split: sum.splits)
    have "count_list t CHR '';'' = Suc (count_list u CHR '';'')"
      by (simp add: t nm si)
    moreover have "describe_calls meta b curr_chapter day =
                   (b, curr_chapter, day) # describe_calls meta (b + 1) 1 ?d"
      using False by (subst describe_calls.simps) (simp add: at)
    ultimately show ?thesis
      using "1.IH" [OF at False u "1.prems"(2)] by simp
  qed
qed

lemma first_call_decreases:
  assumes "0 \<le> b" and "b < int (length meta)" and "curr_chapter \<le> chapters (meta ! nat b)"
    and "describe_calls meta b curr_chapter day = (b, curr_chapter, day) # (b', c', d') # calls"
  shows "d' < day"
proof -
  let ?bk = "meta ! nat b"
  have at: "meta_at meta b = Inr ?bk"
    using assms(1,2) by (simp add: meta_at_nonneg)
  have nt: "\<not> curr_chapter + day - 1 \<le> chapters ?bk"
  proof
    assume "curr_chapter + day - 1 \<le> chapters ?bk"
    then have "describe_calls meta b curr_chapter day = [(b, curr_chapter, day)]"
      by (subst describe_calls.simps) (simp add: at)
    with assms(4) show False by simp
  qed
  let ?d = "day - (chapters ?bk - curr_chapter) - 1"
  have "describe_calls meta b curr_chapter day =
        (b, curr_chapter, day) # describe_calls meta (b + 1) 1 ?d"
    using nt by (subst describe_calls.simps) (simp add: at)
  moreover obtain cs where "describe_calls meta (b + 1) 1 ?d = (b + 1, 1, ?d) # cs"
    using describe_calls_Cons by blast
  ultimately have "d' = ?d" using assms(4) by simp
  then show ?thesis using assms(3) by simp
qed

text \<open>
  C8.  Termination of \<open>get_day_reading_text\<close>: for a cursor on a chapter of a
  book (\<open>1 \<le> curr_chapter \<le> chapters\<close> of book \<open>b\<close>) and a positive quota that is
  at most the units from the cursor to the end of the books, the call returns a
  text, and the recursive call that it makes, if any, has a smaller \<open>day\<close>.
  When every book has a positive number of chapters, as the data model has it,
  \<open>day\<close> strictly decreases along the whole chain of calls, and the number of
  calls is the number of books that the day's units lie in, so that the
  recursion depth, one less, is bounded by that number.
\<close>

theorem describe_terminates:
  assumes "0 \<le> b" and "b < int (length meta)"
    and "1 \<le> curr_chapter" and "curr_chapter \<le> chapters (meta ! nat b)"
    and "1 \<le> day" and "day \<le> capacity meta - (units_before meta b + curr_chapter - 1)"
  shows "(\<exists>t. get_day_reading_text meta b curr_chapter day = Inr t) \<and>
         (\<forall>b' c' d' calls.
            describe_calls meta b curr_chapter day =
              (b, curr_chapter, day) # (b', c', d') # calls \<longrightarrow> d' < day) \<and>
         ((\<forall>c \<in> set meta. 0 < chapters c) \<longrightarrow>
            sorted_wrt (>) (map (\<lambda>(b, c, d). d) (describe_calls meta b curr_chapter day)) \<and>
            length (describe_calls meta b curr_chapter day) = day_span meta b curr_chapter day \<and>
            length (describe_calls meta b curr_chapter day) - 1 \<le>
              day_span meta b curr_chapter day)"
proof -
  have le: "units_before meta b + curr_chapter + day - 1 \<le> capacity meta"
    using assms(6) by simp
  have t: "\<exists>t. get_day_reading_text meta b curr_chapter day = Inr t"
    using assms(1,2) le by (rule reading_in_bounds)
  have f: "\<forall>b' c' d' calls.
            describe_calls meta b curr_chapter day =
              (b, curr_chapter, day) # (b', c', d') # calls \<longrightarrow> d' < day"
    using first_call_decreases [OF assms(1,2,4)] by blast
  have c: "sorted_wrt (>) (map (\<lambda>(b, c, d). d) (describe_calls meta b curr_chapter day)) \<and>
           length (describe_calls meta b curr_chapter day) = day_span meta b curr_chapter day \<and>
           length (describe_calls meta b curr_chapter day) - 1 \<le> day_span meta b curr_chapter day"
    if pos: "\<forall>c \<in> set meta. 0 < chapters c"
    using describe_calls_span [OF assms(1,2,3,4,5) le pos]
    by (simp add: day_span_local [OF assms(1,3) pos])
  show ?thesis
    using t f c by blast
qed

theorem describe_terminates_witness:
  "(0::int) \<le> 0 \<and> (0::int) < int (length alpha_beta) \<and> (1::int) \<le> 5 \<and>
   (5::int) \<le> chapters (alpha_beta ! nat 0) \<and> (1::int) \<le> 2 \<and>
   2 \<le> capacity alpha_beta - (units_before alpha_beta 0 + 5 - 1) \<and>
   get_day_reading_text alpha_beta 0 5 2 = Inr ''Alpha 5; Beta 1'' \<and>
   describe_calls alpha_beta 0 5 2 = [(0, 5, 2), (1, 1, 1)] \<and>
   day_span alpha_beta 0 5 2 = 2 \<and> (1::int) < 2 \<and>
   sorted_wrt (>) (map (\<lambda>(b, c, d). d) (describe_calls alpha_beta 0 5 2)) \<and>
   length (describe_calls alpha_beta 0 5 2) = day_span alpha_beta 0 5 2"
proof -
  have h: "(0::int) \<le> 0" "(0::int) < int (length alpha_beta)" "(1::int) \<le> 5"
    "(5::int) \<le> chapters (alpha_beta ! nat 0)" "(1::int) \<le> 2"
    "2 \<le> capacity alpha_beta - (units_before alpha_beta 0 + 5 - 1)"
    by (simp_all add: alpha_beta_def capacity_def units_before_def)
  have p: "\<forall>c \<in> set alpha_beta. 0 < chapters c"
    by (simp add: alpha_beta_def)
  have e: "get_day_reading_text alpha_beta 0 5 2 = Inr ''Alpha 5; Beta 1''"
    "describe_calls alpha_beta 0 5 2 = [(0, 5, 2), (1, 1, 1)]"
    "day_span alpha_beta 0 5 2 = 2"
    by code_simp+
  show ?thesis
    using h e p describe_terminates [OF h] by simp
qed

end
